theory Spec2Isabelle
  imports Main "HOL-Library.AList" "HOL-Library.Char_ord" "HOL-Library.List_Lexorder"
    "HOL-Library.Multiset"
begin

section \<open>The operating system as the program sees it\<close>

text \<open>
  \<^verbatim>\<open>hardlink_cleaner.py\<close> talks to the filesystem through \<^verbatim>\<open>os.stat\<close>,
  \<^verbatim>\<open>os.scandir\<close>, \<^verbatim>\<open>os.walk\<close> and \<^verbatim>\<open>os.unlink\<close>. The model gives
  each of them a value: a call either returns or raises one of the \<^verbatim>\<open>OSError\<close>
  subclasses that the source distinguishes in its \<^verbatim>\<open>except\<close> clauses.
\<close>

datatype oserror =
    FileNotFoundError
  | PermissionError
  | NotADirectoryError
  | IsADirectoryError
  | OtherOSError

text \<open>
  The file type bits of \<^verbatim>\<open>st_mode\<close>: the source only asks \<^verbatim>\<open>stat.S_ISREG\<close> and
  \<^verbatim>\<open>stat.S_ISDIR\<close>.
\<close>

datatype ftype = S_IFREG | S_IFDIR | S_IFLNK | S_IFOTHER

text \<open>
  The fields of \<^verbatim>\<open>os.stat_result\<close> that the source reads. \<^verbatim>\<open>st_blocks\<close> is
  read with \<^verbatim>\<open>getattr(st, "st_blocks", None)\<close>: a platform without the field is
  \<open>None\<close>.
\<close>

record stat_result =
  st_mode :: ftype
  st_ino :: int
  st_dev :: int
  st_nlink :: int
  st_size :: int
  st_blocks :: "int option"

type_synonym inode_key = "int \<times> int"

definition S_ISREG :: "ftype \<Rightarrow> bool" where
  "S_ISREG m = (m = S_IFREG)"

definition S_ISDIR :: "ftype \<Rightarrow> bool" where
  "S_ISDIR m = (m = S_IFDIR)"

text \<open>\<^verbatim>\<open>key = (st.st_dev, st.st_ino)\<close>\<close>

definition inode_key_of :: "stat_result \<Rightarrow> inode_key" where
  "inode_key_of st = (st_dev st, st_ino st)"


section \<open>Size utilities\<close>

text \<open>
  \<^verbatim>\<open>
  def file_disk_usage(st):
      blocks = getattr(st, "st_blocks", None)
      if blocks is not None and blocks > 0:
          return int(blocks) * 512
      return int(st.st_size)
  \<close>
\<close>

definition file_disk_usage :: "stat_result \<Rightarrow> int" where
  "file_disk_usage st =
     (case st_blocks st of
        Some blocks \<Rightarrow> if blocks > 0 then blocks * 512 else st_size st
      | None \<Rightarrow> st_size st)"

text \<open>
  The callers that offer apparent sizes write
  \<^verbatim>\<open>file_disk_usage(st) if not apparent else st.st_size\<close>: block-count accounting
  is requested when \<open>apparent\<close> is false.
\<close>

definition entry_usage :: "bool \<Rightarrow> stat_result \<Rightarrow> int" where
  "entry_usage apparent st = (if \<not> apparent then file_disk_usage st else st_size st)"


section \<open>Python containers and exceptions\<close>

text \<open>
  What escapes a function of the source: \<^verbatim>\<open>raise SystemExit(...)\<close>, an
  \<^verbatim>\<open>OSError\<close> that no \<^verbatim>\<open>except\<close> clause catches, a \<^verbatim>\<open>KeyError\<close> of a
  dictionary lookup, and the \<^verbatim>\<open>EOFError\<close> of \<^verbatim>\<open>input()\<close> on a closed input.
\<close>

datatype failure =
    SystemExit string
  | Uncaught oserror
  | KeyError
  | EOFError

text \<open>A \<^verbatim>\<open>for\<close> loop whose body may raise: the first failure ends the loop.\<close>

fun for_each :: "('a \<Rightarrow> 's \<Rightarrow> failure + 's) \<Rightarrow> 'a list \<Rightarrow> 's \<Rightarrow> failure + 's" where
  "for_each body [] s = Inr s"
| "for_each body (x # xs) s =
     (case body x s of Inl e \<Rightarrow> Inl e | Inr s' \<Rightarrow> for_each body xs s')"

text \<open>
  A Python \<^verbatim>\<open>dict\<close> keeps its keys in insertion order, and the deletion loops iterate
  in that order: a dictionary is an association list whose keys are distinct.
  \<open>AList.update\<close> overwrites in place or appends, as \<^verbatim>\<open>d[k] = v\<close> does.
\<close>

type_synonym ('k, 'v) dict = "('k \<times> 'v) list"

definition dict_getitem :: "('k, 'v) dict \<Rightarrow> 'k \<Rightarrow> failure + 'v" where
  "dict_getitem d k = (case map_of d k of None \<Rightarrow> Inl KeyError | Some v \<Rightarrow> Inr v)"

text \<open>\<^verbatim>\<open>d[k].append(x)\<close> on a \<^verbatim>\<open>defaultdict(list)\<close>.\<close>

definition dict_append :: "'k \<Rightarrow> 'a \<Rightarrow> ('k, 'a list) dict \<Rightarrow> ('k, 'a list) dict" where
  "dict_append k x d =
     AList.update k ((case map_of d k of None \<Rightarrow> [] | Some xs \<Rightarrow> xs) @ [x]) d"

text \<open>\<^verbatim>\<open>d[k] += n\<close> on a \<^verbatim>\<open>defaultdict(int)\<close>.\<close>

definition dict_add :: "'k \<Rightarrow> int \<Rightarrow> ('k, int) dict \<Rightarrow> ('k, int) dict" where
  "dict_add k n d = AList.update k ((case map_of d k of None \<Rightarrow> 0 | Some m \<Rightarrow> m) + n) d"


section \<open>Directory trees\<close>

text \<open>
  What \<^verbatim>\<open>os.scandir\<close> knows of an entry without a system call (the \<^verbatim>\<open>d_type\<close> of
  the directory listing). For a symbolic link the flag says whether the link resolves to a
  directory, which is what \<^verbatim>\<open>DirEntry.is_dir()\<close> (following links) answers.
\<close>

datatype dtype = DT_REG | DT_DIR | DT_LNK bool | DT_OTHER

text \<open>
  A node of the tree: its listing type, what \<^verbatim>\<open>lstat\<close> on it gives
  (\<^verbatim>\<open>os.stat(path, follow_symlinks=False)\<close> and \<^verbatim>\<open>entry.stat(follow_symlinks=False)\<close>),
  and what \<^verbatim>\<open>os.scandir\<close> on it gives: the error it raises, or the named entries in
  listing order. The tree is the filesystem at the time of the scan; an entry that vanishes
  or cannot be read is an entry whose \<open>lstat\<close> or \<open>scan_error\<close> is the error.
\<close>

datatype fsnode =
  FSNode (d_type: dtype) (lstat: "oserror + stat_result")
         (scan_error: "oserror option") (entries: "(string \<times> fsnode) list")

definition os_scandir :: "fsnode \<Rightarrow> oserror + (string \<times> fsnode) list" where
  "os_scandir n = (case scan_error n of Some e \<Rightarrow> Inl e | None \<Rightarrow> Inr (entries n))"

definition is_symlink :: "fsnode \<Rightarrow> bool" where
  "is_symlink n = (case d_type n of DT_LNK _ \<Rightarrow> True | _ \<Rightarrow> False)"

text \<open>\<^verbatim>\<open>entry.is_dir()\<close>, which follows symbolic links.\<close>

definition is_dir :: "fsnode \<Rightarrow> bool" where
  "is_dir n = (case d_type n of DT_DIR \<Rightarrow> True | DT_LNK b \<Rightarrow> b | _ \<Rightarrow> False)"

text \<open>\<^verbatim>\<open>entry.is_dir(follow_symlinks=False)\<close>\<close>

definition is_dir_nofollow :: "fsnode \<Rightarrow> bool" where
  "is_dir_nofollow n = (d_type n = DT_DIR)"

text \<open>
  The filesystem: what is found at each absolute path. The source normalises its path
  arguments with \<^verbatim>\<open>os.path.abspath\<close>; the model takes them absolute and normalised, which
  \<^verbatim>\<open>abspath\<close> leaves as they are. A path that does not exist is a node whose \<open>lstat\<close>
  and \<open>scan_error\<close> are \<open>FileNotFoundError\<close>.
\<close>

type_synonym world = "string \<Rightarrow> fsnode"

definition os_stat :: "world \<Rightarrow> string \<Rightarrow> oserror + stat_result" where
  "os_stat w p = lstat (w p)"

text \<open>
  \<^verbatim>\<open>posixpath.join(a, b)\<close> for two components, and \<^verbatim>\<open>DirEntry.path\<close>, which joins
  the scanned path and the entry's name with one separator and never looks at the name.
\<close>

definition path_join :: "string \<Rightarrow> string \<Rightarrow> string" where
  "path_join a b =
     (if b \<noteq> [] \<and> hd b = CHR ''/'' then b
      else if a = [] \<or> last a = CHR ''/'' then a @ b
      else a @ ''/'' @ b)"

definition entry_path :: "string \<Rightarrow> string \<Rightarrow> string" where
  "entry_path a b = (if a = [] \<or> last a = CHR ''/'' then a @ b else a @ ''/'' @ b)"

text \<open>
  \<^verbatim>\<open>os.walk(top, followlinks=False)\<close>, top-down. A directory whose listing fails is
  skipped silently (\<^verbatim>\<open>onerror\<close> is \<open>None\<close>); otherwise the walk yields the directory and
  then walks, in listing order, each entry that \<^verbatim>\<open>is_dir()\<close> and is not a symbolic link.
  Every loop of the source that prunes does so with \<^verbatim>\<open>dirs[:] = []\<close> on a condition of
  the yielded directory alone: \<open>prune\<close> is that condition. The model yields the node
  with its path, for the \<^verbatim>\<open>os.stat(curdir)\<close>, the \<^verbatim>\<open>os.scandir(curdir)\<close> and the
  \<^verbatim>\<open>os.stat(os.path.join(curdir, fname))\<close> of the loop bodies.
\<close>

fun os_walk :: "(fsnode \<Rightarrow> bool) \<Rightarrow> string \<Rightarrow> fsnode \<Rightarrow> (string \<times> fsnode) list"
  and os_walk_dirs ::
    "(fsnode \<Rightarrow> bool) \<Rightarrow> string \<Rightarrow> (string \<times> fsnode) list \<Rightarrow> (string \<times> fsnode) list"
where
  "os_walk prune dirpath (FSNode t st err es) =
     (case err of
        Some e \<Rightarrow> []
      | None \<Rightarrow>
          (dirpath, FSNode t st err es) #
          (if prune (FSNode t st err es) then [] else os_walk_dirs prune dirpath es))"
| "os_walk_dirs prune dirpath [] = []"
| "os_walk_dirs prune dirpath ((name, child) # rest) =
     (if is_dir child \<and> \<not> is_symlink child
      then os_walk prune (path_join dirpath name) child else [])
     @ os_walk_dirs prune dirpath rest"

text \<open>The \<^verbatim>\<open>files\<close> of a yielded directory: the entries that are not \<^verbatim>\<open>is_dir()\<close>.\<close>

definition walk_files :: "fsnode \<Rightarrow> (string \<times> fsnode) list" where
  "walk_files n = filter (\<lambda>(name, child). \<not> is_dir child) (entries n)"

text \<open>
  The device check at the head of every walk loop:
  \<^verbatim>\<open>
  try:
      curdir_dev = os.stat(curdir, follow_symlinks=False).st_dev
  except Exception:
      curdir_dev = root_dev
  if xdev and curdir_dev != root_dev:
      dirs[:] = []
      continue
  \<close>
\<close>

definition other_device :: "bool \<Rightarrow> int \<Rightarrow> fsnode \<Rightarrow> bool" where
  "other_device xdev root_dev curdir =
     (let curdir_dev = (case lstat curdir of Inl e \<Rightarrow> root_dev | Inr st \<Rightarrow> st_dev st)
      in xdev \<and> curdir_dev \<noteq> root_dev)"

text \<open>
  The \<^verbatim>\<open>os.stat\<close> of the root that opens a scan:
  \<^verbatim>\<open>
  try:
      root_stat = os.stat(target_dir, follow_symlinks=False)
  except FileNotFoundError:
      raise SystemExit(f"Not found: {target_dir}")
  except PermissionError as e:
      raise SystemExit(f"No permission to: {target_dir} ({e})")
  \<close>
\<close>

definition stat_root :: "world \<Rightarrow> string \<Rightarrow> failure + stat_result" where
  "stat_root w target_dir =
     (case os_stat w target_dir of
        Inl FileNotFoundError \<Rightarrow> Inl (SystemExit (''Not found: '' @ target_dir))
      | Inl PermissionError \<Rightarrow> Inl (SystemExit (''No permission to: '' @ target_dir))
      | Inl e \<Rightarrow> Inl (Uncaught e)
      | Inr st \<Rightarrow> Inr st)"


section \<open>Variant A: files whose every link is inside the directory\<close>

text \<open>
  The body of the inner loop of \<^verbatim>\<open>find_deletable_inodes_variant_a\<close>:
  \<^verbatim>\<open>
  path = os.path.join(curdir, fname)
  try:
      st = os.stat(path, follow_symlinks=False)
  except FileNotFoundError:
      continue
  except PermissionError:
      continue
  if not stat.S_ISREG(st.st_mode):
      continue
  key = (st.st_dev, st.st_ino)
  inode_to_paths[key].append(path)
  inode_to_stat[key] = st
  \<close>
\<close>

type_synonym paths_dict = "(inode_key, string list) dict"
type_synonym stat_dict = "(inode_key, stat_result) dict"

definition variant_a_file ::
  "string \<Rightarrow> string \<times> fsnode \<Rightarrow> paths_dict \<times> stat_dict \<Rightarrow> failure + paths_dict \<times> stat_dict"
where
  "variant_a_file curdir f acc =
     (let path = path_join curdir (fst f) in
      case lstat (snd f) of
        Inl FileNotFoundError \<Rightarrow> Inr acc
      | Inl PermissionError \<Rightarrow> Inr acc
      | Inl e \<Rightarrow> Inl (Uncaught e)
      | Inr st \<Rightarrow>
          if \<not> S_ISREG (st_mode st) then Inr acc
          else let key = inode_key_of st
               in Inr (dict_append key path (fst acc), AList.update key st (snd acc)))"

definition variant_a_dir ::
  "bool \<Rightarrow> int \<Rightarrow> string \<times> fsnode \<Rightarrow> paths_dict \<times> stat_dict \<Rightarrow> failure + paths_dict \<times> stat_dict"
where
  "variant_a_dir xdev root_dev y acc =
     (if other_device xdev root_dev (snd y) then Inr acc
      else for_each (variant_a_file (fst y)) (walk_files (snd y)) acc)"

text \<open>The scan: both dictionaries after the walk.\<close>

definition scan_variant_a ::
  "world \<Rightarrow> string \<Rightarrow> bool \<Rightarrow> failure + paths_dict \<times> stat_dict" where
  "scan_variant_a w target_dir xdev =
     (case stat_root w target_dir of
        Inl e \<Rightarrow> Inl e
      | Inr root_stat \<Rightarrow>
          let root_dev = st_dev root_stat
          in for_each (variant_a_dir xdev root_dev)
               (os_walk (other_device xdev root_dev) target_dir (w target_dir)) ([], []))"

text \<open>
  \<^verbatim>\<open>
  deletable = {}
  for key, paths in inode_to_paths.items():
      st = inode_to_stat[key]
      if st.st_nlink == len(paths):
          deletable[key] = sorted(paths)
  \<close>
\<close>

definition select_deletable ::
  "stat_dict \<Rightarrow> inode_key \<times> string list \<Rightarrow> paths_dict \<Rightarrow> failure + paths_dict" where
  "select_deletable inode_to_stat kp deletable =
     (case dict_getitem inode_to_stat (fst kp) of
        Inl e \<Rightarrow> Inl e
      | Inr st \<Rightarrow>
          if st_nlink st = int (length (snd kp))
          then Inr (AList.update (fst kp) (sort (snd kp)) deletable)
          else Inr deletable)"

definition find_deletable_inodes_variant_a ::
  "world \<Rightarrow> string \<Rightarrow> bool \<Rightarrow> failure + paths_dict \<times> stat_dict" where
  "find_deletable_inodes_variant_a w target_dir xdev =
     (case scan_variant_a w target_dir xdev of
        Inl e \<Rightarrow> Inl e
      | Inr (inode_to_paths, inode_to_stat) \<Rightarrow>
          (case for_each (select_deletable inode_to_stat) inode_to_paths [] of
             Inl e \<Rightarrow> Inl e
           | Inr deletable \<Rightarrow> Inr (deletable, inode_to_stat)))"


section \<open>Effects: the log, the confirmation prompt and \<^verbatim>\<open>os.unlink\<close>\<close>

text \<open>
  A log record is the level, the format string of the \<^verbatim>\<open>logging\<close> call and its
  arguments. \<open>LMiB n\<close> is the argument \<^verbatim>\<open>n / 1024 / 1024\<close> of a \<^verbatim>\<open>%.2f MiB\<close>
  field, kept as the byte count it is computed from. The records are those of the reporting
  and deleting code; the warnings of the scanning loops about unreadable entries are not
  recorded.
\<close>

datatype loglevel = DEBUG | INFO | WARNING | ERROR

datatype logarg = LStr string | LInt int | LKey inode_key | LMiB int | LErr oserror

type_synonym logrec = "loglevel \<times> string \<times> logarg list"

text \<open>
  The state the deleting code acts on: the log so far, the \<^verbatim>\<open>os.unlink\<close> calls made
  so far, and for every path what \<^verbatim>\<open>os.unlink\<close> on it does now (\<open>None\<close>: it removes
  the path). \<^verbatim>\<open>os.unlink\<close> is the only call of the source that changes the tree.
\<close>

record effects =
  logged :: "logrec list"
  unlink_calls :: "string list"
  unlinkable :: "string \<Rightarrow> oserror option"

definition logging :: "loglevel \<Rightarrow> string \<Rightarrow> logarg list \<Rightarrow> effects \<Rightarrow> effects" where
  "logging lvl fmt args s = s\<lparr>logged := logged s @ [(lvl, fmt, args)]\<rparr>"

text \<open>
  One round of every deletion loop; only the message for \<^verbatim>\<open>IsADirectoryError\<close> differs
  between the loops.
  \<^verbatim>\<open>
  try:
      os.unlink(p)
      removed_paths += 1
  except FileNotFoundError:
      logging.warning("Already doesn't exist: %s", p)
  except PermissionError:
      logging.error("No permission to delete: %s", p)
  except IsADirectoryError:
      logging.error("This is a directory (expected file): %s", p)
  except OSError as e:
      logging.error("Error deleting %s: %s", p, e)
  \<close>
  A path that was removed is gone: a second \<^verbatim>\<open>os.unlink\<close> on it raises
  \<^verbatim>\<open>FileNotFoundError\<close>.
\<close>

definition unlink_one :: "string \<Rightarrow> string \<Rightarrow> nat \<times> effects \<Rightarrow> nat \<times> effects" where
  "unlink_one isdir_msg p acc =
     (let removed = fst acc;
          s = snd acc;
          s1 = s\<lparr>unlink_calls := unlink_calls s @ [p]\<rparr>
      in case unlinkable s p of
           None \<Rightarrow> (removed + 1, s1\<lparr>unlinkable := (unlinkable s)(p := Some FileNotFoundError)\<rparr>)
         | Some FileNotFoundError \<Rightarrow>
             (removed, logging WARNING ''Already doesn't exist: %s'' [LStr p] s1)
         | Some PermissionError \<Rightarrow>
             (removed, logging ERROR ''No permission to delete: %s'' [LStr p] s1)
         | Some IsADirectoryError \<Rightarrow> (removed, logging ERROR isdir_msg [LStr p] s1)
         | Some e \<Rightarrow> (removed, logging ERROR ''Error deleting %s: %s'' [LStr p, LErr e] s1))"

text \<open>
  \<^verbatim>\<open>
  for paths in deletable.values():
      for p in paths:
          ...
  \<close>
\<close>

definition unlink_groups :: "string \<Rightarrow> string list list \<Rightarrow> effects \<Rightarrow> nat \<times> effects" where
  "unlink_groups isdir_msg groups s =
     fold (\<lambda>paths acc. fold (unlink_one isdir_msg) paths acc) groups (0, s)"

text \<open>
  \<^verbatim>\<open>str.strip()\<close> and \<^verbatim>\<open>str.lower()\<close> on the answer to the prompt. A character is
  a code point below 256; the whitespace of \<^verbatim>\<open>str.isspace\<close> in that range is listed. The
  letters of \<open>y\<close> and \<open>yes\<close> have no upper-case form outside ASCII.
\<close>

definition py_isspace :: "char \<Rightarrow> bool" where
  "py_isspace c =
     (of_char c \<in> {9, 10, 11, 12, 13, 28, 29, 30, 31, 32, 133, 160 :: nat})"

definition py_strip :: "string \<Rightarrow> string" where
  "py_strip s = rev (dropWhile py_isspace (rev (dropWhile py_isspace s)))"

definition py_lower_char :: "char \<Rightarrow> char" where
  "py_lower_char c =
     (let n = of_char c :: nat
      in if (65 \<le> n \<and> n \<le> 90) \<or> (192 \<le> n \<and> n \<le> 222 \<and> n \<noteq> 215)
         then char_of (n + 32) else c)"

definition py_lower :: "string \<Rightarrow> string" where
  "py_lower s = map py_lower_char s"

text \<open>
  \<^verbatim>\<open>
  if not yes:
      ans = input("... [y/N]: ").strip().lower()
      if ans not in ("y", "yes"):
          logging.info("Cancelled by user.")
          return (0, 0, 0)
  \<close>
  The operator's line is \<open>answer\<close>; \<open>None\<close> is a closed input, on which
  \<^verbatim>\<open>input()\<close> raises \<^verbatim>\<open>EOFError\<close>. The result says whether the operation is
  cancelled.
\<close>

definition affirmative :: "string \<Rightarrow> bool" where
  "affirmative line = (let ans = py_lower (py_strip line) in ans = ''y'' \<or> ans = ''yes'')"

definition cancelled :: "bool \<Rightarrow> string option \<Rightarrow> failure + bool" where
  "cancelled yes answer =
     (if yes then Inr False
      else case answer of None \<Rightarrow> Inl EOFError | Some line \<Rightarrow> Inr (\<not> affirmative line))"


section \<open>Complete-object deletion\<close>

text \<open>
  \<^verbatim>\<open>
  for key in deletable:
      st = inode_to_stat[key]
      freed_bytes += file_disk_usage(st)
  \<close>
\<close>

definition add_usage :: "stat_dict \<Rightarrow> inode_key \<Rightarrow> int \<Rightarrow> failure + int" where
  "add_usage inode_to_stat key freed_bytes =
     (case dict_getitem inode_to_stat key of
        Inl e \<Rightarrow> Inl e
      | Inr st \<Rightarrow> Inr (freed_bytes + file_disk_usage st))"

text \<open>
  \<^verbatim>\<open>
  for key, paths in deletable.items():
      logging.debug("INODE %s has %d paths to delete", key, len(paths))
      for p in paths:
          logging.info("[DEL] %s", p)
  \<close>
\<close>

definition report_del :: "inode_key \<times> string list \<Rightarrow> effects \<Rightarrow> effects" where
  "report_del kp s =
     fold (\<lambda>p. logging INFO ''[DEL] %s'' [LStr p]) (snd kp)
       (logging DEBUG ''INODE %s has %d paths to delete''
          [LKey (fst kp), LInt (int (length (snd kp)))] s)"

definition delete_variant_a ::
  "world \<Rightarrow> string \<Rightarrow> bool \<Rightarrow> bool \<Rightarrow> bool \<Rightarrow> string option \<Rightarrow> effects
     \<Rightarrow> (failure + nat \<times> nat \<times> int) \<times> effects"
where
  "delete_variant_a w target_dir yes dry_run xdev answer s0 =
     (case find_deletable_inodes_variant_a w target_dir xdev of
        Inl e \<Rightarrow> (Inl e, s0)
      | Inr (deletable, inode_to_stat) \<Rightarrow>
          let total_inodes = length deletable;
              total_paths = sum_list (map (\<lambda>v. length v) (map snd deletable))
          in case for_each (add_usage inode_to_stat) (map fst deletable) 0 of
               Inl e \<Rightarrow> (Inl e, s0)
             | Inr freed_bytes \<Rightarrow>
                 if total_inodes = 0
                 then (Inr (0, 0, 0),
                       logging INFO ''No files qualifying for complete deletion in: %s''
                         [LStr target_dir] s0)
                 else
                   let s1 = logging INFO ''Qualifying for complete deletion: %d inodes, %d paths''
                              [LInt (int total_inodes), LInt (int total_paths)] s0;
                       s2 = logging INFO ''Estimated freed size: %d B (%.2f MiB)''
                              [LInt freed_bytes, LMiB freed_bytes] s1;
                       s3 = fold report_del deletable s2
                   in if dry_run
                      then (Inr (total_inodes, total_paths, freed_bytes),
                            logging INFO ''DRY-RUN enabled. Nothing was deleted.'' [] s3)
                      else
                        case cancelled yes answer of
                          Inl e \<Rightarrow> (Inl e, s3)
                        | Inr True \<Rightarrow> (Inr (0, 0, 0), logging INFO ''Cancelled by user.'' [] s3)
                        | Inr False \<Rightarrow>
                            let r = unlink_groups ''This is a directory (expected file): %s''
                                      (map snd deletable) s3;
                                removed_paths = fst r
                            in (Inr (total_inodes, removed_paths, freed_bytes),
                                logging INFO ''Deleted paths: %d. Estimated freed size: %.2f MiB''
                                  [LInt (int removed_paths), LMiB freed_bytes] (snd r)))"


section \<open>Global purge\<close>

text \<open>
  \<^verbatim>\<open>posixpath.dirname\<close>:
  \<^verbatim>\<open>
  i = p.rfind('/') + 1
  head = p[:i]
  if head and head != '/' * len(head):
      head = head.rstrip('/')
  return head
  \<close>
\<close>

definition dirname :: "string \<Rightarrow> string" where
  "dirname p =
     (let head = rev (dropWhile (\<lambda>c. c \<noteq> CHR ''/'') (rev p))
      in if head \<noteq> [] \<and> head \<noteq> replicate (length head) (CHR ''/'')
         then rev (dropWhile (\<lambda>c. c = CHR ''/'') (rev head))
         else head)"

lemma rev_dropWhile_rev_length: "length (rev (dropWhile P (rev p))) \<le> length p"
  using length_dropWhile_le [of P "rev p"] by simp

lemma rev_dropWhile_rev_prefix: "p = rev (dropWhile P (rev p)) @ rev (takeWhile P (rev p))"
proof -
  have "rev (dropWhile P (rev p)) @ rev (takeWhile P (rev p))
        = rev (takeWhile P (rev p) @ dropWhile P (rev p))"
    by (simp only: rev_append)
  also have "\<dots> = rev (rev p)" by (simp only: takeWhile_dropWhile_id)
  finally show ?thesis by simp
qed

lemma dirname_prefix: "\<exists>rest. p = dirname p @ rest"
proof -
  define head where "head = rev (dropWhile (\<lambda>c. c \<noteq> CHR ''/'') (rev p))"
  obtain r1 where r1: "p = head @ r1"
    using rev_dropWhile_rev_prefix [of p "\<lambda>c. c \<noteq> CHR ''/''"] head_def by metis
  obtain r2 where r2: "head = rev (dropWhile (\<lambda>c. c = CHR ''/'') (rev head)) @ r2"
    using rev_dropWhile_rev_prefix [of head "\<lambda>c. c = CHR ''/''"] by metis
  show ?thesis
  proof (cases "head \<noteq> [] \<and> head \<noteq> replicate (length head) (CHR ''/'')")
    case True
    then have "dirname p = rev (dropWhile (\<lambda>c. c = CHR ''/'') (rev head))"
      by (simp add: dirname_def head_def Let_def)
    then have "p = dirname p @ (r2 @ r1)" using r1 r2 by simp
    then show ?thesis by blast
  next
    case False
    then have "dirname p = head" by (auto simp: dirname_def head_def Let_def)
    then show ?thesis using r1 by blast
  qed
qed

lemma dirname_shorter: "dirname p \<noteq> p \<Longrightarrow> length (dirname p) < length p"
proof -
  assume ne: "dirname p \<noteq> p"
  obtain rest where r: "p = dirname p @ rest" using dirname_prefix by blast
  then have "rest \<noteq> []" using ne by auto
  then have "length (dirname p) < length (dirname p @ rest)" by simp
  then show ?thesis using r by simp
qed

text \<open>
  The loop of \<^verbatim>\<open>detect_fs_root\<close>:
  \<^verbatim>\<open>
  cur = path
  parent = os.path.dirname(cur)
  while True:
      try:
          parent_dev = os.stat(parent, follow_symlinks=False).st_dev
      except Exception:
          break
      if parent_dev != target_dev or parent == cur:
          break
      cur = parent
      parent = os.path.dirname(cur)
  return cur
  \<close>
\<close>

function ascend :: "world \<Rightarrow> int \<Rightarrow> string \<Rightarrow> string" where
  "ascend w target_dev cur =
     (let parent = dirname cur
      in case os_stat w parent of
           Inl e \<Rightarrow> cur
         | Inr st \<Rightarrow>
             if st_dev st \<noteq> target_dev \<or> parent = cur then cur
             else ascend w target_dev parent)"
  by pat_completeness auto
termination
  by (relation "measure (\<lambda>(w, target_dev, cur). length cur)") (auto simp: dirname_shorter)

definition detect_fs_root :: "world \<Rightarrow> string \<Rightarrow> failure + string" where
  "detect_fs_root w path =
     (case os_stat w path of
        Inl e \<Rightarrow> Inl (SystemExit (''Cannot stat() path '' @ path))
      | Inr st \<Rightarrow> Inr (ascend w (st_dev st) path))"

text \<open>
  The inner loop body of \<^verbatim>\<open>collect_target_inodes\<close>, as that of variant A but for
  \<^verbatim>\<open>inodes.add(key)\<close> and \<^verbatim>\<open>inode_stat[key] = st\<close>.
\<close>

definition collect_file ::
  "string \<times> fsnode \<Rightarrow> inode_key set \<times> stat_dict \<Rightarrow> failure + inode_key set \<times> stat_dict"
where
  "collect_file f acc =
     (case lstat (snd f) of
        Inl FileNotFoundError \<Rightarrow> Inr acc
      | Inl PermissionError \<Rightarrow> Inr acc
      | Inl e \<Rightarrow> Inl (Uncaught e)
      | Inr st \<Rightarrow>
          if \<not> S_ISREG (st_mode st) then Inr acc
          else let key = inode_key_of st
               in Inr (insert key (fst acc), AList.update key st (snd acc)))"

definition collect_dir ::
  "bool \<Rightarrow> int \<Rightarrow> string \<times> fsnode \<Rightarrow> inode_key set \<times> stat_dict
     \<Rightarrow> failure + inode_key set \<times> stat_dict"
where
  "collect_dir xdev root_dev y acc =
     (if other_device xdev root_dev (snd y) then Inr acc
      else for_each collect_file (walk_files (snd y)) acc)"

definition collect_target_inodes ::
  "world \<Rightarrow> string \<Rightarrow> bool \<Rightarrow> failure + inode_key set \<times> stat_dict" where
  "collect_target_inodes w target_dir xdev =
     (case stat_root w target_dir of
        Inl e \<Rightarrow> Inl e
      | Inr root_stat \<Rightarrow>
          let root_dev = st_dev root_stat
          in for_each (collect_dir xdev root_dev)
               (os_walk (other_device xdev root_dev) target_dir (w target_dir)) ({}, []))"

text \<open>
  The body of the \<^verbatim>\<open>os.scandir\<close> loop of \<^verbatim>\<open>find_all_paths_for_inodes\<close>:
  \<^verbatim>\<open>
  try:
      st = entry.stat(follow_symlinks=False)
  except FileNotFoundError:
      continue
  except PermissionError:
      continue
  if xdev and st.st_dev != root_dev:
      continue
  if not stat.S_ISREG(st.st_mode):
      continue
  key = (st.st_dev, st.st_ino)
  if key in inodes:
      hits[key].append(entry.path)
  \<close>
  Another \<^verbatim>\<open>OSError\<close> of \<^verbatim>\<open>entry.stat\<close> passes the enclosing
  \<^verbatim>\<open>except PermissionError\<close> and \<^verbatim>\<open>except FileNotFoundError\<close> and leaves the function.
\<close>

definition hit_entry ::
  "bool \<Rightarrow> int \<Rightarrow> inode_key set \<Rightarrow> string \<Rightarrow> string \<times> fsnode \<Rightarrow> paths_dict
     \<Rightarrow> failure + paths_dict"
where
  "hit_entry xdev root_dev inodes curdir entry hits =
     (case lstat (snd entry) of
        Inl FileNotFoundError \<Rightarrow> Inr hits
      | Inl PermissionError \<Rightarrow> Inr hits
      | Inl e \<Rightarrow> Inl (Uncaught e)
      | Inr st \<Rightarrow>
          if xdev \<and> st_dev st \<noteq> root_dev then Inr hits
          else if \<not> S_ISREG (st_mode st) then Inr hits
          else let key = inode_key_of st
               in if key \<in> inodes
                  then Inr (dict_append key (entry_path curdir (fst entry)) hits)
                  else Inr hits)"

definition hit_dir ::
  "bool \<Rightarrow> int \<Rightarrow> inode_key set \<Rightarrow> string \<times> fsnode \<Rightarrow> paths_dict \<Rightarrow> failure + paths_dict"
where
  "hit_dir xdev root_dev inodes y hits =
     (if other_device xdev root_dev (snd y) then Inr hits
      else case os_scandir (snd y) of
             Inl PermissionError \<Rightarrow> Inr hits
           | Inl FileNotFoundError \<Rightarrow> Inr hits
           | Inl e \<Rightarrow> Inl (Uncaught e)
           | Inr es \<Rightarrow> for_each (hit_entry xdev root_dev inodes (fst y)) es hits)"

definition find_all_paths_for_inodes ::
  "world \<Rightarrow> string \<Rightarrow> inode_key set \<Rightarrow> bool \<Rightarrow> failure + paths_dict" where
  "find_all_paths_for_inodes w fs_root inodes xdev =
     (case os_stat w fs_root of
        Inl e \<Rightarrow> Inl (SystemExit (''Cannot stat() fs_root '' @ fs_root))
      | Inr root_stat \<Rightarrow>
          let root_dev = st_dev root_stat
          in for_each (hit_dir xdev root_dev inodes)
               (os_walk (other_device xdev root_dev) fs_root (w fs_root)) [])"

text \<open>
  \<^verbatim>\<open>
  for key, paths in hits.items():
      total_paths += len(paths)
      st = inode_stat.get(key)
      if st is not None:
          freed_bytes += file_disk_usage(st)
  \<close>
\<close>

definition purge_totals :: "stat_dict \<Rightarrow> inode_key \<times> string list \<Rightarrow> int \<times> nat \<Rightarrow> int \<times> nat"
where
  "purge_totals inode_stat kp acc =
     (let freed_bytes = fst acc;
          total_paths = snd acc + length (snd kp)
      in case map_of inode_stat (fst kp) of
           Some st \<Rightarrow> (freed_bytes + file_disk_usage st, total_paths)
         | None \<Rightarrow> (freed_bytes, total_paths))"

definition report_purge :: "inode_key \<times> string list \<Rightarrow> effects \<Rightarrow> effects" where
  "report_purge kp s = fold (\<lambda>p. logging INFO ''[PURGE] %s'' [LStr p]) (snd kp) s"

definition purge_hardlink_groups_globally ::
  "world \<Rightarrow> string \<Rightarrow> string option \<Rightarrow> bool \<Rightarrow> bool \<Rightarrow> bool \<Rightarrow> string option \<Rightarrow> effects
     \<Rightarrow> (failure + nat \<times> nat \<times> int) \<times> effects"
where
  "purge_hardlink_groups_globally w target_dir fs_root_arg yes dry_run xdev answer s0 =
     (case collect_target_inodes w target_dir xdev of
        Inl e \<Rightarrow> (Inl e, s0)
      | Inr (inodes, inode_stat) \<Rightarrow>
          if inodes = {}
          then (Inr (0, 0, 0), logging INFO ''No files to purge in: %s'' [LStr target_dir] s0)
          else
            case (case fs_root_arg of None \<Rightarrow> detect_fs_root w target_dir | Some r \<Rightarrow> Inr r) of
              Inl e \<Rightarrow> (Inl e, s0)
            | Inr fs_root \<Rightarrow>
                let s1 = logging INFO ''FS root: %s'' [LStr fs_root] s0
                in case find_all_paths_for_inodes w fs_root inodes xdev of
                     Inl e \<Rightarrow> (Inl e, s1)
                   | Inr hits \<Rightarrow>
                       let totals = fold (purge_totals inode_stat) hits (0, 0);
                           freed_bytes = fst totals;
                           total_paths = snd totals
                       in if hits = []
                          then (Inr (0, 0, 0),
                                logging INFO ''No paths found to delete within %s''
                                  [LStr fs_root] s1)
                          else
                            let s2 = logging INFO
                                       ''To delete: %d inodes, %d paths. Est. freed: %.2f MiB''
                                       [LInt (int (length hits)), LInt (int total_paths),
                                        LMiB freed_bytes] s1;
                                s3 = fold report_purge hits s2
                            in if dry_run
                               then (Inr (length hits, total_paths, freed_bytes),
                                     logging INFO ''DRY-RUN enabled. Nothing was deleted.'' [] s3)
                               else
                                 case cancelled yes answer of
                                   Inl e \<Rightarrow> (Inl e, s3)
                                 | Inr True \<Rightarrow>
                                     (Inr (0, 0, 0), logging INFO ''Cancelled by user.'' [] s3)
                                 | Inr False \<Rightarrow>
                                     let r = unlink_groups
                                               ''This is a directory (expected file): %s''
                                               (map snd hits) s3;
                                         removed_paths = fst r
                                     in (Inr (length hits, removed_paths, freed_bytes),
                                         logging INFO
                                           ''Deleted paths: %d. Estimated freed size: %.2f MiB''
                                           [LInt (int removed_paths), LMiB freed_bytes] (snd r)))"


section \<open>Removing symbolic links\<close>






section \<open>Selection-driven purge\<close>




section \<open>What a run reports\<close>

text \<open>
  The log lines that report the candidates of a deletion and its estimate, by their format
  strings: the lines every operation writes before it looks at \<^verbatim>\<open>dry_run\<close>.
\<close>

definition report_format :: "string \<Rightarrow> bool" where
  "report_format fmt =
     (fmt \<in> {''Qualifying for complete deletion: %d inodes, %d paths'',
              ''Estimated freed size: %d B (%.2f MiB)'',
              ''INODE %s has %d paths to delete'',
              ''[DEL] %s'',
              ''[SYMLINK] %s'',
              ''Found %d symlinks. Total link size: %d B'',
              ''To delete: %d inodes, %d paths. Est. freed: %.2f MiB'',
              ''[PURGE] %s'',
              ''Selected: %d inodes, %d paths. Est. freed: %.2f MiB''})"

definition candidate_report :: "logrec list \<Rightarrow> logrec list" where
  "candidate_report l = filter (\<lambda>r. report_format (fst (snd r))) l"



section \<open>Well-formed trees and the paths a walk keeps\<close>

definition valid_name :: "string \<Rightarrow> bool" where
  "valid_name n = (n \<noteq> [] \<and> CHR ''/'' \<notin> set n)"

fun wf_node :: "fsnode \<Rightarrow> bool" where
  "wf_node (FSNode t st err es) =
     (distinct (map fst es) \<and> (\<forall>e \<in> set es. valid_name (fst e) \<and> wf_node (snd e)))"

definition slashed :: "string \<Rightarrow> string" where
  "slashed d = (if d = [] \<or> last d = CHR ''/'' then d else d @ ''/'')"

definition kept_paths ::
  "(fsnode \<Rightarrow> bool) \<Rightarrow> (fsnode \<Rightarrow> bool) \<Rightarrow> (string \<times> fsnode) list \<Rightarrow> string list" where
  "kept_paths skip keep ys =
     concat (map (\<lambda>y. if skip (snd y) then []
                      else map (\<lambda>f. slashed (fst y) @ fst f)
                             (filter (\<lambda>f. keep (snd f)) (entries (snd y)))) ys)"

definition regular_ok :: "fsnode \<Rightarrow> bool" where
  "regular_ok c = (case lstat c of Inl e \<Rightarrow> False | Inr st \<Rightarrow> S_ISREG (st_mode st))"

definition scan_inv :: "paths_dict \<times> stat_dict \<Rightarrow> bool" where
  "scan_inv acc = (distinct (map fst (fst acc)) \<and> fst ` set (fst acc) \<subseteq> fst ` set (snd acc))"

definition keep_a :: "fsnode \<Rightarrow> bool" where
  "keep_a c = (\<not> is_dir c \<and> regular_ok c)"


section \<open>A small filesystem for the concrete checks\<close>

text \<open>
  One device (number 1), blocks of 512 bytes. \<open>/d\<close> holds \<open>a\<close> and \<open>b\<close>, two links of
  inode 10; \<open>c\<close>, the only link of inode 11; \<open>e\<close>, one of the two links of inode 12, whose
  other link is \<open>/o/e2\<close>; the directory \<open>sub\<close> with the files \<open>x\<close> and \<open>y\<close>; and the
  symbolic link \<open>l\<close>.
\<close>

definition demo_file :: "int \<Rightarrow> int \<Rightarrow> fsnode" where
  "demo_file ino nlink =
     FSNode DT_REG
       (Inr \<lparr>st_mode = S_IFREG, st_ino = ino, st_dev = 1, st_nlink = nlink, st_size = 4000,
             st_blocks = Some 8\<rparr>)
       (Some NotADirectoryError) []"

definition demo_dir :: "int \<Rightarrow> (string \<times> fsnode) list \<Rightarrow> fsnode" where
  "demo_dir ino es =
     FSNode DT_DIR
       (Inr \<lparr>st_mode = S_IFDIR, st_ino = ino, st_dev = 1, st_nlink = 2, st_size = 4096,
             st_blocks = Some 8\<rparr>)
       None es"

definition demo_link :: "int \<Rightarrow> fsnode" where
  "demo_link ino =
     FSNode (DT_LNK False)
       (Inr \<lparr>st_mode = S_IFLNK, st_ino = ino, st_dev = 1, st_nlink = 1, st_size = 9,
             st_blocks = Some 0\<rparr>)
       (Some NotADirectoryError) []"

definition missing :: fsnode where
  "missing = FSNode DT_OTHER (Inl FileNotFoundError) (Some FileNotFoundError) []"

definition demo_sub :: fsnode where
  "demo_sub = demo_dir 3 [(''x'', demo_file 13 1), (''y'', demo_file 14 1)]"

definition demo_d :: fsnode where
  "demo_d =
     demo_dir 2
       [(''a'', demo_file 10 2), (''b'', demo_file 10 2), (''c'', demo_file 11 1),
        (''e'', demo_file 12 2), (''sub'', demo_sub), (''l'', demo_link 15)]"

definition demo_o :: fsnode where
  "demo_o = demo_dir 4 [(''e2'', demo_file 12 2)]"

definition demo_root :: fsnode where
  "demo_root = demo_dir 1 [(''d'', demo_d), (''o'', demo_o)]"

definition demo_world :: world where
  "demo_world p =
     (if p = ''/'' then demo_root
      else if p = ''/d'' then demo_d
      else if p = ''/o'' then demo_o
      else if p = ''/d/sub'' then demo_sub
      else missing)"

definition quiet :: effects where
  "quiet = \<lparr>logged = [], unlink_calls = [], unlinkable = (\<lambda>p. None)\<rparr>"


section \<open>Disk usage of one file (C4)\<close>

text \<open>
  C4, as the specification states it: under block accounting with a block count available,
  the usage is \<open>max(block_count, 0) * 512\<close>, so a file reporting 0 blocks has usage 0.
  The source guards the block branch with \<^verbatim>\<open>blocks > 0\<close>: a file of 100 bytes that
  reports 0 blocks is given its nominal size, 100, and not 0.
\<close>

theorem file_disk_usage_zero_blocks_counterexample:
  "entry_usage False
     \<lparr>st_mode = S_IFREG, st_ino = 7, st_dev = 1, st_nlink = 1, st_size = 100,
      st_blocks = Some 0\<rparr> = 100
   \<and> entry_usage False
     \<lparr>st_mode = S_IFREG, st_ino = 7, st_dev = 1, st_nlink = 1, st_size = 100,
      st_blocks = Some 0\<rparr> \<noteq> max 0 0 * 512"
  by (simp add: entry_usage_def file_disk_usage_def)

text \<open>
  C4, amended: the usage is \<open>max(block_count, 0) * 512\<close> when block accounting is
  requested and the reported block count is available and strictly positive; in every other
  case (apparent size requested, no block count field, or a block count of zero or less) it
  is the nominal size.
\<close>

theorem file_disk_usage_amended:
  "entry_usage apparent st =
     (if \<not> apparent \<and> (\<exists>b. st_blocks st = Some b \<and> 0 < b)
      then max (the (st_blocks st)) 0 * 512
      else st_size st)"
  by (auto simp: entry_usage_def file_disk_usage_def split: option.splits)


section \<open>Effects of the reporting and deleting code\<close>

lemma logged_logging [simp]: "logged (logging lvl fmt args s) = logged s @ [(lvl, fmt, args)]"
  by (simp add: logging_def)

lemma unlink_calls_logging [simp]: "unlink_calls (logging lvl fmt args s) = unlink_calls s"
  by (simp add: logging_def)

lemma unlinkable_logging [simp]: "unlinkable (logging lvl fmt args s) = unlinkable s"
  by (simp add: logging_def)

lemma unlink_calls_fold_logging [simp]:
  "unlink_calls (fold (\<lambda>p. logging lvl fmt (f p)) ps s) = unlink_calls s"
  by (induction ps arbitrary: s) auto

lemma unlinkable_fold_logging [simp]:
  "unlinkable (fold (\<lambda>p. logging lvl fmt (f p)) ps s) = unlinkable s"
  by (induction ps arbitrary: s) auto

lemma unlink_calls_report_del [simp]: "unlink_calls (fold report_del d s) = unlink_calls s"
  by (induction d arbitrary: s) (auto simp: report_del_def)

lemma unlinkable_report_del [simp]: "unlinkable (fold report_del d s) = unlinkable s"
  by (induction d arbitrary: s) (auto simp: report_del_def)

lemma unlink_calls_report_purge [simp]: "unlink_calls (fold report_purge d s) = unlink_calls s"
  by (induction d arbitrary: s) (auto simp: report_purge_def)

lemma unlinkable_report_purge [simp]: "unlinkable (fold report_purge d s) = unlinkable s"
  by (induction d arbitrary: s) (auto simp: report_purge_def)

lemma report_format_simps [simp]:
  "\<not> report_format ''DRY-RUN enabled. Nothing was deleted.''"
  "\<not> report_format ''Cancelled by user.''"
  "\<not> report_format ''Deleted paths: %d. Estimated freed size: %.2f MiB''"
  "\<not> report_format ''Deleted symlinks: %d''"
  "\<not> report_format ''Already doesn't exist: %s''"
  "\<not> report_format ''No permission to delete: %s''"
  "\<not> report_format ''Error deleting %s: %s''"
  "\<not> report_format ''This is a directory (expected file): %s''"
  "\<not> report_format ''Symlink is a directory? %s''"
  by (simp_all add: report_format_def)

lemma candidate_report_append [simp]:
  "candidate_report (xs @ ys) = candidate_report xs @ candidate_report ys"
  by (simp add: candidate_report_def)






lemma cancelled_declined: "\<not> affirmative line \<Longrightarrow> cancelled False (Some line) = Inr True"
  by (simp add: cancelled_def)


section \<open>Dry runs (C8)\<close>








section \<open>A declined prompt (C10)\<close>

lemma delete_variant_a_declined:
  assumes "\<not> affirmative line"
  shows "unlink_calls (snd (delete_variant_a w d False False xdev (Some line) s)) = unlink_calls s
       \<and> unlinkable (snd (delete_variant_a w d False False xdev (Some line) s)) = unlinkable s
       \<and> (fst (delete_variant_a w d False False xdev (Some line) s) = Inr (0, 0, 0)
          \<or> isl (fst (delete_variant_a w d False False xdev (Some line) s))
            \<and> fst (delete_variant_a w d False False xdev (Some line) s)
              = fst (delete_variant_a w d False True xdev (Some line) s))"
  using assms
  by (auto simp: delete_variant_a_def Let_def cancelled_declined split: sum.splits prod.splits)

lemma purge_declined:
  assumes "\<not> affirmative line"
  shows "unlink_calls (snd (purge_hardlink_groups_globally w d r False False xdev (Some line) s))
           = unlink_calls s
       \<and> unlinkable (snd (purge_hardlink_groups_globally w d r False False xdev (Some line) s))
           = unlinkable s
       \<and> (fst (purge_hardlink_groups_globally w d r False False xdev (Some line) s)
            = Inr (0, 0, 0)
          \<or> isl (fst (purge_hardlink_groups_globally w d r False False xdev (Some line) s))
            \<and> fst (purge_hardlink_groups_globally w d r False False xdev (Some line) s)
              = fst (purge_hardlink_groups_globally w d r False True xdev (Some line) s))"
  using assms
  by (auto simp: purge_hardlink_groups_globally_def Let_def cancelled_declined
           split: sum.splits prod.splits option.splits)

text \<open>
  C10, as the specification states it: any answer other than \<open>y\<close> or \<open>yes\<close> in any
  letter case declines. The source strips the answer before it lowers and compares it, so
  the answer \<open>y\<close> after a blank, which is neither word in any letter case, confirms: on the
  small filesystem complete-object deletion then unlinks five paths and returns the counts.
\<close>

theorem declined_answer_counterexample:
  "py_lower '' y'' \<noteq> ''y'' \<and> py_lower '' y'' \<noteq> ''yes''
   \<and> fst (delete_variant_a demo_world ''/d'' False False True (Some '' y'') quiet)
       = Inr (4, 5, 16384)
   \<and> unlink_calls (snd (delete_variant_a demo_world ''/d'' False False True (Some '' y'') quiet))
       = [''/d/a'', ''/d/b'', ''/d/c'', ''/d/sub/x'', ''/d/sub/y'']
   \<and> fst (purge_hardlink_groups_globally demo_world ''/d'' None False False True (Some '' y'')
            quiet)
       = Inr (5, 7, 20480)"
  by code_simp

text \<open>
  C10, amended: when the prompt is declined (any answer that, once leading and trailing
  whitespace is stripped, is other than \<open>y\<close> or \<open>yes\<close> in any letter case), complete-object
  deletion and global purge make no \<^verbatim>\<open>os.unlink\<close> call, leave every path as it was, and
  return \<open>(0, 0, 0)\<close>, the value of a run that found no candidates; the only other outcome
  is the failure that the scan raises before the prompt, which the dry run raises as well.
\<close>

theorem declined_prompt_returns_zero_triple:
  assumes "\<not> affirmative line"
  shows "(unlink_calls (snd (delete_variant_a w d False False xdev (Some line) s)) = unlink_calls s
          \<and> unlinkable (snd (delete_variant_a w d False False xdev (Some line) s)) = unlinkable s
          \<and> (fst (delete_variant_a w d False False xdev (Some line) s) = Inr (0, 0, 0)
             \<or> isl (fst (delete_variant_a w d False False xdev (Some line) s))
               \<and> fst (delete_variant_a w d False False xdev (Some line) s)
                 = fst (delete_variant_a w d False True xdev (Some line) s)))
       \<and> (unlink_calls (snd (purge_hardlink_groups_globally w d r False False xdev (Some line) s))
            = unlink_calls s
          \<and> unlinkable (snd (purge_hardlink_groups_globally w d r False False xdev (Some line) s))
            = unlinkable s
          \<and> (fst (purge_hardlink_groups_globally w d r False False xdev (Some line) s)
               = Inr (0, 0, 0)
             \<or> isl (fst (purge_hardlink_groups_globally w d r False False xdev (Some line) s))
               \<and> fst (purge_hardlink_groups_globally w d r False False xdev (Some line) s)
                 = fst (purge_hardlink_groups_globally w d r False True xdev (Some line) s)))"
  using delete_variant_a_declined [OF assms] purge_declined [OF assms] by blast

text \<open>
  The theorem on the small filesystem with the answer \<open>n\<close>: both operations return
  \<open>(0, 0, 0)\<close>, where their dry runs return the counts of four and five inodes.
\<close>

theorem declined_prompt_returns_zero_triple_witness:
  "\<not> affirmative ''n''
   \<and> fst (delete_variant_a demo_world ''/d'' False False True (Some ''n'') quiet) = Inr (0, 0, 0)
   \<and> unlink_calls (snd (delete_variant_a demo_world ''/d'' False False True (Some ''n'') quiet)) = []
   \<and> fst (delete_variant_a demo_world ''/d'' False True True (Some ''n'') quiet) = Inr (4, 5, 16384)
   \<and> fst (purge_hardlink_groups_globally demo_world ''/d'' None False False True (Some ''n'') quiet)
       = Inr (0, 0, 0)
   \<and> unlink_calls (snd (purge_hardlink_groups_globally demo_world ''/d'' None False False True
                          (Some ''n'') quiet)) = []
   \<and> fst (purge_hardlink_groups_globally demo_world ''/d'' None False True True (Some ''n'') quiet)
       = Inr (5, 7, 20480)"
proof -
  have h: "\<not> affirmative ''n''" by code_simp
  have q: "unlink_calls quiet = []" by (simp add: quiet_def)
  have a: "fst (delete_variant_a demo_world ''/d'' False True True (Some ''n'') quiet)
             = Inr (4, 5, 16384)" by code_simp
  have b: "fst (purge_hardlink_groups_globally demo_world ''/d'' None False True True (Some ''n'')
                 quiet) = Inr (5, 7, 20480)" by code_simp
  show ?thesis
    using declined_prompt_returns_zero_triple [OF h, of demo_world "''/d''" True quiet None]
          h q a b
    by auto
qed


section \<open>Paths of a walk and the selection of variant A (C1)\<close>

lemma path_join_valid: "valid_name n \<Longrightarrow> path_join d n = slashed d @ n"
  by (cases n) (auto simp: path_join_def slashed_def valid_name_def)

lemma entry_path_slashed: "entry_path d n = slashed d @ n"
  by (auto simp: entry_path_def slashed_def)

lemma slashed_join: "valid_name n \<Longrightarrow> slashed (path_join d n) = slashed d @ n @ ''/''"
proof -
  assume v: "valid_name n"
  then have "last n \<in> set n" by (simp add: valid_name_def)
  then have "last n \<noteq> CHR ''/''" using v unfolding valid_name_def by metis
  moreover have "slashed d @ n \<noteq> []" "last (slashed d @ n) = last n"
    using v by (auto simp: valid_name_def)
  ultimately show ?thesis using v by (simp add: path_join_valid) (simp add: slashed_def)
qed

lemma kept_paths_Nil [simp]: "kept_paths skip keep [] = []"
  by (simp add: kept_paths_def)

lemma kept_paths_append [simp]:
  "kept_paths skip keep (xs @ ys) = kept_paths skip keep xs @ kept_paths skip keep ys"
  by (simp add: kept_paths_def)

lemma kept_paths_Cons:
  "kept_paths skip keep (y # ys) =
     (if skip (snd y) then []
      else map (\<lambda>f. slashed (fst y) @ fst f) (filter (\<lambda>f. keep (snd f)) (entries (snd y))))
     @ kept_paths skip keep ys"
  by (simp add: kept_paths_def)

text \<open>Every kept path of a walk of d lies below d.\<close>

lemma slash_free_split:
  assumes "CHR ''/'' \<notin> set n" "CHR ''/'' \<notin> set m" "n @ CHR ''/'' # q = m @ CHR ''/'' # r"
  shows "n = m"
proof -
  have tw: "CHR ''/'' \<notin> set xs \<Longrightarrow> takeWhile (\<lambda>c. c \<noteq> CHR ''/'') (xs @ CHR ''/'' # ys) = xs"
    for xs ys by (induction xs) auto
  have "takeWhile (\<lambda>c. c \<noteq> CHR ''/'') (n @ CHR ''/'' # q) = n"
    using assms(1) by (rule tw)
  moreover have "takeWhile (\<lambda>c. c \<noteq> CHR ''/'') (m @ CHR ''/'' # r) = m"
    using assms(2) by (rule tw)
  ultimately show ?thesis using assms(3) by simp
qed

lemma walk_below:
  "wf_node node \<Longrightarrow> p \<in> set (kept_paths skip keep (os_walk prune d node))
     \<Longrightarrow> \<exists>q. p = slashed d @ q"
  "(\<forall>e \<in> set es. valid_name (fst e) \<and> wf_node (snd e))
     \<Longrightarrow> p \<in> set (kept_paths skip keep (os_walk_dirs prune d es))
     \<Longrightarrow> \<exists>n q. n \<in> fst ` set es \<and> p = slashed d @ n @ CHR ''/'' # q"
proof (induction prune d node and prune d es arbitrary: p and p rule: os_walk_os_walk_dirs.induct)
  case (1 prune dirpath t st err es)
  show ?case
  proof (cases err)
    case (Some e)
    with 1 show ?thesis by simp
  next
    case None
    from 1(3) None consider
        (here) "p \<in> set (kept_paths skip keep [(dirpath, FSNode t st err es)])"
      | (deeper) "\<not> prune (FSNode t st err es)"
                 "p \<in> set (kept_paths skip keep (os_walk_dirs prune dirpath es))"
      by (auto simp: kept_paths_Cons split: if_splits)
    then show ?thesis
    proof cases
      case here
      then show ?thesis by (auto simp: kept_paths_Cons split: if_splits)
    next
      case deeper
      have "\<forall>e \<in> set es. valid_name (fst e) \<and> wf_node (snd e)" using 1(2) by simp
      from 1(1) [OF None deeper(1) this deeper(2)] show ?thesis by auto
    qed
  qed
next
  case (2 prune dirpath)
  then show ?case by simp
next
  case (3 prune dirpath name child rest)
  from 3(4) consider
      (first) "is_dir child \<and> \<not> is_symlink child"
              "p \<in> set (kept_paths skip keep (os_walk prune (path_join dirpath name) child))"
    | (later) "p \<in> set (kept_paths skip keep (os_walk_dirs prune dirpath rest))"
    by (auto split: if_splits)
  then show ?case
  proof cases
    case first
    have v: "valid_name name" and w: "wf_node child" using 3(3) by auto
    from 3(1) [OF first(1) w first(2)] obtain q where "p = slashed (path_join dirpath name) @ q"
      by blast
    then have "p = slashed dirpath @ name @ CHR ''/'' # q" using v by (simp add: slashed_join)
    then show ?thesis by auto
  next
    case later
    have "\<forall>e \<in> set rest. valid_name (fst e) \<and> wf_node (snd e)" using 3(3) by simp
    from 3(2) [OF this later] show ?thesis by auto
  qed
qed

lemma walk_distinct:
  "wf_node node \<Longrightarrow> distinct (kept_paths skip keep (os_walk prune d node))"
  "distinct (map fst es) \<Longrightarrow> (\<forall>e \<in> set es. valid_name (fst e) \<and> wf_node (snd e))
     \<Longrightarrow> distinct (kept_paths skip keep (os_walk_dirs prune d es))"
proof (induction prune d node and prune d es rule: os_walk_os_walk_dirs.induct)
  case (1 prune dirpath t st err es)
  show ?case
  proof (cases err)
    case (Some e)
    then show ?thesis by simp
  next
    case None
    have dn: "distinct (map fst es)" and ve: "\<forall>e \<in> set es. valid_name (fst e) \<and> wf_node (snd e)"
      using 1(2) by auto
    let ?here = "map (\<lambda>f. slashed dirpath @ fst f) (filter (\<lambda>f. keep (snd f)) es)"
    have "distinct (map fst (filter (\<lambda>f. keep (snd f)) es))"
      using dn by (simp add: distinct_map_filter)
    moreover have "?here = map ((@) (slashed dirpath)) (map fst (filter (\<lambda>f. keep (snd f)) es))"
      by simp
    ultimately have dh: "distinct ?here"
      by (simp only: distinct_map) (simp add: inj_on_def)
    show ?thesis
    proof (cases "prune (FSNode t st err es)")
      case True
      then show ?thesis using None dh by (simp add: kept_paths_Cons)
    next
      case False
      have dd: "distinct (kept_paths skip keep (os_walk_dirs prune dirpath es))"
        using 1(1) [OF None False dn ve] .
      have disj: "set ?here \<inter> set (kept_paths skip keep (os_walk_dirs prune dirpath es)) = {}"
      proof (rule ccontr)
        assume "\<not> ?thesis"
        then obtain p where p1: "p \<in> set ?here"
          and p2: "p \<in> set (kept_paths skip keep (os_walk_dirs prune dirpath es))" by blast
        from p1 obtain f where f: "f \<in> set es" "p = slashed dirpath @ fst f" by auto
        from walk_below(2) [OF ve p2] obtain n q where
          nq: "p = slashed dirpath @ n @ CHR ''/'' # q" by blast
        from f nq have "fst f = n @ CHR ''/'' # q" by simp
        then have "CHR ''/'' \<in> set (fst f)" by simp
        then show False using ve f(1) by (auto simp: valid_name_def)
      qed
      show ?thesis using None False dh dd disj by (auto simp: kept_paths_Cons)
    qed
  qed
next
  case (2 prune dirpath)
  then show ?case by simp
next
  case (3 prune dirpath name child rest)
  have v: "valid_name name" and w: "wf_node child" using 3(4) by auto
  have dr: "distinct (map fst rest)" and nr: "name \<notin> fst ` set rest" using 3(3) by auto
  have vr: "\<forall>e \<in> set rest. valid_name (fst e) \<and> wf_node (snd e)" using 3(4) by simp
  have d2: "distinct (kept_paths skip keep (os_walk_dirs prune dirpath rest))"
    using 3(2) [OF dr vr] .
  show ?case
  proof (cases "is_dir child \<and> \<not> is_symlink child")
    case False
    then show ?thesis using d2 by auto
  next
    case True
    have d1: "distinct (kept_paths skip keep (os_walk prune (path_join dirpath name) child))"
      using 3(1) [OF True w] .
    have disj: "set (kept_paths skip keep (os_walk prune (path_join dirpath name) child))
                \<inter> set (kept_paths skip keep (os_walk_dirs prune dirpath rest)) = {}"
    proof (rule ccontr)
      assume "\<not> ?thesis"
      then obtain p where
        p1: "p \<in> set (kept_paths skip keep (os_walk prune (path_join dirpath name) child))"
        and p2: "p \<in> set (kept_paths skip keep (os_walk_dirs prune dirpath rest))" by blast
      from walk_below(1) [OF w p1] obtain q where "p = slashed (path_join dirpath name) @ q"
        by blast
      then have e1: "p = slashed dirpath @ name @ CHR ''/'' # q" using v by (simp add: slashed_join)
      from walk_below(2) [OF vr p2] obtain n r where
        n: "n \<in> fst ` set rest" and e2: "p = slashed dirpath @ n @ CHR ''/'' # r" by blast
      have "valid_name n" using vr n by auto
      then have "name = n"
        using slash_free_split [of name n q r] v e1 e2 by (simp add: valid_name_def)
      then show False using nr n by simp
    qed
    show ?thesis using True d1 d2 disj by simp
  qed
qed

lemma for_each_invariant:
  assumes "for_each body xs s = Inr s'" "I s"
    and "\<And>x t t'. x \<in> set xs \<Longrightarrow> I t \<Longrightarrow> body x t = Inr t' \<Longrightarrow> I t'"
  shows "I s'"
  using assms
proof (induction xs arbitrary: s)
  case Nil
  then show ?case by simp
next
  case (Cons x xs)
  from Cons.prems(1) obtain t where t: "body x s = Inr t" "for_each body xs t = Inr s'"
    by (auto split: sum.splits)
  have "I t" using Cons.prems(2,3) t(1) by (meson list.set_intros(1))
  moreover have "\<And>x t t'. x \<in> set xs \<Longrightarrow> I t \<Longrightarrow> body x t = Inr t' \<Longrightarrow> I t'"
    using Cons.prems(3) by (meson list.set_intros(2))
  ultimately show ?case using Cons.IH [OF t(2)] by blast
qed

lemma for_each_append:
  "for_each body (xs @ ys) s =
     (case for_each body xs s of Inl e \<Rightarrow> Inl e | Inr t \<Rightarrow> for_each body ys t)"
  by (induction xs arbitrary: s) (auto split: sum.splits)

text \<open>What a for_each adds to a measure of the state, when each round adds its share.\<close>

lemma for_each_mset:
  assumes "for_each body xs s = Inr s'"
    and "\<And>x t t'. x \<in> set xs \<Longrightarrow> body x t = Inr t' \<Longrightarrow> m t' = m t + g x"
  shows "m s' = m s + (\<Sum>x\<leftarrow>xs. g x)"
  using assms
proof (induction xs arbitrary: s)
  case Nil
  then show ?case by simp
next
  case (Cons x xs)
  from Cons.prems(1) obtain t where t: "body x s = Inr t" "for_each body xs t = Inr s'"
    by (auto split: sum.splits)
  have "m t = m s + g x" using Cons.prems(2) t(1) by (meson list.set_intros(1))
  moreover have "\<And>x t t'. x \<in> set xs \<Longrightarrow> body x t = Inr t' \<Longrightarrow> m t' = m t + g x"
    using Cons.prems(2) by (meson list.set_intros(2))
  then have "m s' = m t + (\<Sum>x\<leftarrow>xs. g x)" using Cons.IH [OF t(2)] by blast
  ultimately show ?case by (simp add: add.assoc)
qed

lemma update_absent: "map_of d k = None \<Longrightarrow> AList.update k v d = d @ [(k, v)]"
  by (induction d) (auto split: if_splits)

lemma update_present:
  "map_of d k = Some u \<Longrightarrow>
   \<exists>d1 d2. d = d1 @ (k, u) # d2 \<and> AList.update k v d = d1 @ (k, v) # d2"
proof (induction d)
  case Nil
  then show ?case by simp
next
  case (Cons a d)
  show ?case
  proof (cases "fst a = k")
    case True
    then have "a = (k, u)" using Cons.prems by (cases a) auto
    then have "a # d = [] @ (k, u) # d \<and> AList.update k v (a # d) = [] @ (k, v) # d" by simp
    then show ?thesis by blast
  next
    case False
    then have "map_of d k = Some u" using Cons.prems by (cases a) auto
    from Cons.IH [OF this] obtain d1 d2 where
      "d = d1 @ (k, u) # d2" "AList.update k v d = d1 @ (k, v) # d2" by blast
    then have "a # d = (a # d1) @ (k, u) # d2
               \<and> AList.update k v (a # d) = (a # d1) @ (k, v) # d2"
      using False by (cases a) auto
    then show ?thesis by blast
  qed
qed

lemma dict_append_mset:
  "mset (concat (map snd (dict_append k x d))) = mset (concat (map snd d)) + {#x#}"
proof (cases "map_of d k")
  case None
  then show ?thesis by (simp add: dict_append_def update_absent)
next
  case (Some u)
  from update_present [OF Some, of "u @ [x]"] obtain d1 d2 where
    "d = d1 @ (k, u) # d2" "AList.update k (u @ [x]) d = d1 @ (k, u @ [x]) # d2" by blast
  then show ?thesis using Some by (simp add: dict_append_def)
qed

lemma dict_append_keys:
  "fst ` set (dict_append k x d) = insert k (fst ` set d)"
  by (simp add: dict_append_def dom_update)

lemma dict_append_distinct:
  "distinct (map fst d) \<Longrightarrow> distinct (map fst (dict_append k x d))"
  by (simp add: dict_append_def distinct_update)

lemma variant_a_file_mset:
  assumes "variant_a_file curdir f acc = Inr acc'"
  shows "mset (concat (map snd (fst acc'))) =
         mset (concat (map snd (fst acc)))
         + mset (if regular_ok (snd f) then [path_join curdir (fst f)] else [])"
  using assms
  by (auto simp: variant_a_file_def regular_ok_def Let_def dict_append_mset
           split: sum.splits oserror.splits if_splits)

lemma variant_a_file_inv:
  assumes "variant_a_file curdir f acc = Inr acc'" "scan_inv acc"
  shows "scan_inv acc'"
proof -
  have grow: "scan_inv (dict_append k p (fst acc), AList.update k st (snd acc))"
    for k p and st :: stat_result
  proof -
    have "fst ` set (dict_append k p (fst acc)) = insert k (fst ` set (fst acc))"
      by (rule dict_append_keys)
    moreover have "fst ` set (AList.update k st (snd acc)) = insert k (fst ` set (snd acc))"
      by (simp add: dom_update)
    ultimately show ?thesis
      using assms(2) unfolding scan_inv_def
      by (simp add: dict_append_distinct) blast
  qed
  show ?thesis
    using assms
    by (auto simp: variant_a_file_def Let_def grow split: sum.splits oserror.splits if_splits)
qed

lemma variant_a_dir_inv:
  assumes "variant_a_dir xdev rd y acc = Inr acc'" "scan_inv acc"
  shows "scan_inv acc'"
proof (cases "other_device xdev rd (snd y)")
  case True
  then show ?thesis using assms by (simp add: variant_a_dir_def)
next
  case False
  then have "for_each (variant_a_file (fst y)) (walk_files (snd y)) acc = Inr acc'"
    using assms(1) by (simp add: variant_a_dir_def)
  then show ?thesis
    using assms(2) variant_a_file_inv by (rule for_each_invariant)
qed

lemma scan_variant_a_inv:
  assumes "scan_variant_a w d xdev = Inr (P, S)"
  shows "distinct (map fst P)" "fst ` set P \<subseteq> fst ` set S"
proof -
  from assms(1) have "\<exists>rd. for_each (variant_a_dir xdev rd)
           (os_walk (other_device xdev rd) d (w d)) ([], []) = Inr (P, S)"
    by (auto simp: scan_variant_a_def Let_def split: sum.splits)
  then obtain rd where
    fe: "for_each (variant_a_dir xdev rd)
           (os_walk (other_device xdev rd) d (w d)) ([], []) = Inr (P, S)"
    by blast
  have "scan_inv ([], [])" by (simp add: scan_inv_def)
  with fe have "scan_inv (P, S)"
    using variant_a_dir_inv by (rule for_each_invariant)
  then show "distinct (map fst P)" "fst ` set P \<subseteq> fst ` set S"
    by (simp_all add: scan_inv_def)
qed

lemma variant_a_dir_mset:
  assumes "variant_a_dir xdev rd y acc = Inr acc'"
    and "\<forall>e \<in> set (entries (snd y)). valid_name (fst e)"
  shows "mset (concat (map snd (fst acc'))) =
         mset (concat (map snd (fst acc))) + mset (kept_paths (other_device xdev rd) keep_a [y])"
proof (cases "other_device xdev rd (snd y)")
  case True
  then show ?thesis using assms by (simp add: variant_a_dir_def kept_paths_Cons)
next
  case False
  then have fe: "for_each (variant_a_file (fst y)) (walk_files (snd y)) acc = Inr acc'"
    using assms(1) by (simp add: variant_a_dir_def)
  have step: "\<And>f t t'. f \<in> set (walk_files (snd y)) \<Longrightarrow> variant_a_file (fst y) f t = Inr t'
      \<Longrightarrow> mset (concat (map snd (fst t'))) = mset (concat (map snd (fst t)))
            + mset (if regular_ok (snd f) then [path_join (fst y) (fst f)] else [])"
    by (rule variant_a_file_mset)
  have "mset (concat (map snd (fst acc'))) =
        mset (concat (map snd (fst acc)))
        + (\<Sum>f\<leftarrow>walk_files (snd y). mset (if regular_ok (snd f) then [path_join (fst y) (fst f)] else []))"
    using fe step by (rule for_each_mset)
  moreover have "(\<Sum>f\<leftarrow>fs. mset (if regular_ok (snd f) then [path_join (fst y) (fst f)] else []))
        = mset (map (\<lambda>f. slashed (fst y) @ fst f) (filter (\<lambda>f. regular_ok (snd f)) fs))"
    if "\<forall>e \<in> set fs. valid_name (fst e)" for fs
    using that by (induction fs) (auto simp: path_join_valid)
  moreover have "\<forall>e \<in> set (walk_files (snd y)). valid_name (fst e)"
    using assms(2) by (auto simp: walk_files_def)
  moreover have "filter (\<lambda>f. regular_ok (snd f)) (walk_files (snd y))
                 = filter (\<lambda>f. keep_a (snd f)) (entries (snd y))"
    by (auto simp: walk_files_def keep_a_def case_prod_unfold intro: filter_cong)
  ultimately show ?thesis using False by (simp add: kept_paths_Cons)
qed

lemma walk_wf:
  "wf_node node \<Longrightarrow> y \<in> set (os_walk prune d node) \<Longrightarrow> wf_node (snd y)"
  "(\<forall>e \<in> set es. wf_node (snd e)) \<Longrightarrow> y \<in> set (os_walk_dirs prune d es) \<Longrightarrow> wf_node (snd y)"
proof (induction prune d node and prune d es arbitrary: y and y rule: os_walk_os_walk_dirs.induct)
  case (1 prune dirpath t st err es)
  show ?case
  proof (cases err)
    case (Some e)
    with 1 show ?thesis by simp
  next
    case None
    from 1(3) None consider (here) "y = (dirpath, FSNode t st err es)"
      | (deeper) "\<not> prune (FSNode t st err es)" "y \<in> set (os_walk_dirs prune dirpath es)"
      by (auto split: if_splits)
    then show ?thesis
    proof cases
      case here
      then show ?thesis using 1(2) by simp
    next
      case deeper
      have "\<forall>e \<in> set es. wf_node (snd e)" using 1(2) by simp
      from 1(1) [OF None deeper(1) this deeper(2)] show ?thesis .
    qed
  qed
next
  case (2 prune dirpath)
  then show ?case by simp
next
  case (3 prune dirpath name child rest)
  from 3(4) consider (first) "is_dir child \<and> \<not> is_symlink child"
      "y \<in> set (os_walk prune (path_join dirpath name) child)"
    | (later) "y \<in> set (os_walk_dirs prune dirpath rest)"
    by (auto split: if_splits)
  then show ?case
  proof cases
    case first
    have "wf_node child" using 3(3) by simp
    from 3(1) [OF first(1) this first(2)] show ?thesis .
  next
    case later
    have "\<forall>e \<in> set rest. wf_node (snd e)" using 3(3) by simp
    from 3(2) [OF this later] show ?thesis .
  qed
qed

lemma wf_node_entries: "wf_node n \<Longrightarrow> e \<in> set (entries n) \<Longrightarrow> valid_name (fst e)"
  by (cases n) auto

lemma for_each_dirs_mset:
  assumes "for_each (variant_a_dir xdev rd) ys acc = Inr acc'"
    and "\<forall>y \<in> set ys. wf_node (snd y)"
  shows "mset (concat (map snd (fst acc'))) =
         mset (concat (map snd (fst acc))) + mset (kept_paths (other_device xdev rd) keep_a ys)"
  using assms
proof (induction ys arbitrary: acc)
  case Nil
  then show ?case by simp
next
  case (Cons y ys)
  from Cons.prems(1) obtain t where t: "variant_a_dir xdev rd y acc = Inr t"
    "for_each (variant_a_dir xdev rd) ys t = Inr acc'" by (auto split: sum.splits)
  have "\<forall>e \<in> set (entries (snd y)). valid_name (fst e)"
    using Cons.prems(2) wf_node_entries by auto
  from variant_a_dir_mset [OF t(1) this] Cons.IH [OF t(2)] Cons.prems(2)
  show ?case by (simp add: kept_paths_Cons [of _ _ y ys] kept_paths_Cons [of _ _ y "[]"])
qed

lemma scan_variant_a_distinct_paths:
  assumes "scan_variant_a w d xdev = Inr (P, S)" "wf_node (w d)"
  shows "distinct (concat (map snd P))"
proof -
  from assms(1) have "\<exists>rd. for_each (variant_a_dir xdev rd)
           (os_walk (other_device xdev rd) d (w d)) ([], []) = Inr (P, S)"
    by (auto simp: scan_variant_a_def Let_def split: sum.splits)
  then obtain rd where
    fe: "for_each (variant_a_dir xdev rd)
           (os_walk (other_device xdev rd) d (w d)) ([], []) = Inr (P, S)"
    by blast
  have "\<forall>y \<in> set (os_walk (other_device xdev rd) d (w d)). wf_node (snd y)"
    using walk_wf(1) [OF assms(2)] by blast
  from for_each_dirs_mset [OF fe this]
  have "mset (concat (map snd P)) =
        mset (kept_paths (other_device xdev rd) keep_a
                (os_walk (other_device xdev rd) d (w d)))" by simp
  moreover have "distinct (kept_paths (other_device xdev rd) keep_a
                (os_walk (other_device xdev rd) d (w d)))"
    using walk_distinct(1) [OF assms(2)] .
  ultimately show ?thesis using mset_eq_imp_distinct_iff by blast
qed

lemma unlink_calls_unlink_one [simp]:
  "unlink_calls (snd (unlink_one m p acc)) = unlink_calls (snd acc) @ [p]"
  by (auto simp: unlink_one_def Let_def split: option.splits oserror.splits)

lemma unlink_calls_fold_unlink_one [simp]:
  "unlink_calls (snd (fold (unlink_one m) ps acc)) = unlink_calls (snd acc) @ ps"
  by (induction ps arbitrary: acc) auto

lemma unlink_calls_fold_groups:
  "unlink_calls (snd (fold (\<lambda>paths acc. fold (unlink_one m) paths acc) groups acc))
     = unlink_calls (snd acc) @ concat groups"
  by (induction groups arbitrary: acc) auto

lemma unlink_calls_unlink_groups [simp]:
  "unlink_calls (snd (unlink_groups m groups s)) = unlink_calls s @ concat groups"
  by (simp add: unlink_groups_def unlink_calls_fold_groups)

lemma select_deletable_result:
  assumes "for_each (select_deletable S) P acc = Inr D" "distinct (map fst P)"
  shows "map_of D key =
     (case map_of P key of
        None \<Rightarrow> map_of acc key
      | Some ps \<Rightarrow>
          (case map_of S key of
             None \<Rightarrow> map_of acc key
           | Some st \<Rightarrow> if st_nlink st = int (length ps) then Some (sort ps)
                        else map_of acc key))"
  using assms
proof (induction P arbitrary: acc)
  case Nil
  then show ?case by simp
next
  case (Cons kp P)
  obtain k ps where kp: "kp = (k, ps)" by (cases kp)
  from Cons.prems(1) obtain acc1 where
    s1: "select_deletable S kp acc = Inr acc1" and r: "for_each (select_deletable S) P acc1 = Inr D"
    by (auto split: sum.splits)
  have dP: "distinct (map fst P)" and kP: "k \<notin> fst ` set P" using Cons.prems(2) kp by auto
  note IH = Cons.IH [OF r dP]
  from s1 kp obtain st where st: "map_of S k = Some st"
    and acc1: "acc1 = (if st_nlink st = int (length ps) then AList.update k (sort ps) acc else acc)"
    by (auto simp: select_deletable_def dict_getitem_def split: option.splits if_splits)
  show ?case
  proof (cases "key = k")
    case True
    have "map_of P key = None" using kP True by (simp add: map_of_eq_None_iff)
    then have "map_of D key = map_of acc1 key" using IH by simp
    moreover have "map_of (kp # P) key = Some ps" using True kp by simp
    ultimately show ?thesis using True st acc1 by (simp add: update_conv')
  next
    case False
    have "map_of acc1 key = map_of acc key" using False acc1 by (simp add: update_conv')
    moreover have "map_of (kp # P) key = map_of P key" using False kp by simp
    ultimately show ?thesis using IH by (simp split: option.splits)
  qed
qed

lemma select_deletable_total:
  assumes "fst ` set P \<subseteq> fst ` set S"
  shows "\<exists>D. for_each (select_deletable S) P acc = Inr D"
  using assms
proof (induction P arbitrary: acc)
  case Nil
  then show ?case by simp
next
  case (Cons kp P)
  have "fst kp \<in> fst ` set S" using Cons.prems by auto
  then obtain st where "map_of S (fst kp) = Some st"
    by (metis domIff dom_map_of_conv_image_fst not_Some_eq)
  then have "\<exists>acc1. select_deletable S kp acc = Inr acc1"
    by (simp add: select_deletable_def dict_getitem_def)
  then obtain acc1 where "select_deletable S kp acc = Inr acc1" by blast
  moreover have "\<exists>D. for_each (select_deletable S) P acc1 = Inr D"
    using Cons by simp
  ultimately show ?case by auto
qed

lemma select_deletable_distinct:
  assumes "for_each (select_deletable S) P acc = Inr D" "distinct (map fst acc)"
  shows "distinct (map fst D)"
proof -
  have "\<And>x t t'. x \<in> set P \<Longrightarrow> distinct (map fst t) \<Longrightarrow> select_deletable S x t = Inr t'
          \<Longrightarrow> distinct (map fst t')"
    by (auto simp: select_deletable_def distinct_update split: sum.splits if_splits)
  with assms show ?thesis by (rule for_each_invariant)
qed

lemma disjoint_groups:
  assumes "distinct (concat (map snd P))" "distinct (map fst P)"
    "map_of P k = Some ps" "map_of P k' = Some ps'" "k \<noteq> k'"
  shows "set ps \<inter> set ps' = {}"
  using assms
proof (induction P)
  case Nil
  then show ?case by simp
next
  case (Cons a P)
  obtain ka pa where a: "a = (ka, pa)" by (cases a)
  have sub: "map_of P j = Some qs \<Longrightarrow> set qs \<subseteq> set (concat (map snd P))" for j qs
    by (auto dest!: map_of_SomeD)
  show ?case
  proof (cases "ka = k")
    case True
    then have "pa = ps" "map_of P k' = Some ps'" using Cons.prems a by auto
    then show ?thesis using Cons.prems(1) a sub [of k' ps'] by auto
  next
    case False
    note nk = this
    show ?thesis
    proof (cases "ka = k'")
      case True
      then have "pa = ps'" "map_of P k = Some ps" using Cons.prems a nk by auto
      then show ?thesis using Cons.prems(1) a sub [of k ps] by auto
    next
      case False
      then have "map_of P k = Some ps" "map_of P k' = Some ps'" using Cons.prems a nk by auto
      then show ?thesis using Cons.IH Cons.prems a by auto
    qed
  qed
qed

lemma add_usage_total:
  assumes "set ks \<subseteq> fst ` set S"
  shows "\<exists>n. for_each (add_usage S) ks acc = Inr n"
  using assms
proof (induction ks arbitrary: acc)
  case Nil
  then show ?case by simp
next
  case (Cons k ks)
  have "k \<in> fst ` set S" using Cons.prems by auto
  then obtain st where "map_of S k = Some st"
    by (metis domIff dom_map_of_conv_image_fst not_Some_eq)
  then have "add_usage S k acc = Inr (acc + file_disk_usage st)"
    by (simp add: add_usage_def dict_getitem_def)
  moreover have "\<exists>n. for_each (add_usage S) ks (acc + file_disk_usage st) = Inr n"
    using Cons by simp
  ultimately show ?case by auto
qed

lemma delete_variant_a_unlinks:
  assumes "find_deletable_inodes_variant_a w d xdev = Inr (D, S)"
  shows "set (unlink_calls (snd (delete_variant_a w d yes dry_run xdev answer s)))
           \<subseteq> set (unlink_calls s) \<union> set (concat (map snd D))"
  using assms
  by (auto simp: delete_variant_a_def Let_def split: sum.splits prod.splits bool.splits)

theorem variant_a_selects_inodes_without_outside_links:
  assumes "scan_variant_a w d xdev = Inr (P, S)"
  shows "\<exists>D. find_deletable_inodes_variant_a w d xdev = Inr (D, S)
     \<and> (\<forall>key. key \<in> fst ` set D \<longleftrightarrow>
            (\<exists>ps st. map_of P key = Some ps \<and> map_of S key = Some st
                      \<and> st_nlink st = int (length ps)))
     \<and> (\<forall>key ps. map_of P key = Some ps \<and> key \<in> fst ` set D \<longrightarrow> map_of D key = Some (sort ps))
     \<and> (wf_node (w d) \<longrightarrow>
          (\<forall>key ps st p. map_of P key = Some ps \<and> map_of S key = Some st
               \<and> int (length ps) < st_nlink st \<and> p \<in> set ps \<and> p \<notin> set (unlink_calls s)
             \<longrightarrow> key \<notin> fst ` set D
                 \<and> p \<notin> set (unlink_calls
                               (snd (delete_variant_a w d yes dry_run xdev answer s)))))"
proof -
  have dP: "distinct (map fst P)" and sub: "fst ` set P \<subseteq> fst ` set S"
    using scan_variant_a_inv [OF assms] by auto
  from select_deletable_total [OF sub] obtain D where
    fe: "for_each (select_deletable S) P [] = Inr D" by blast
  have fd: "find_deletable_inodes_variant_a w d xdev = Inr (D, S)"
    using assms fe by (simp add: find_deletable_inodes_variant_a_def)
  have res: "map_of D key =
     (case map_of P key of
        None \<Rightarrow> None
      | Some ps \<Rightarrow>
          (case map_of S key of
             None \<Rightarrow> None
           | Some st \<Rightarrow> if st_nlink st = int (length ps) then Some (sort ps) else None))" for key
    using select_deletable_result [OF fe dP, of key] by (simp split: option.splits)
  have keys: "key \<in> fst ` set D \<longleftrightarrow> map_of D key \<noteq> None" for key
    by (metis domIff dom_map_of_conv_image_fst)
  have iff: "key \<in> fst ` set D \<longleftrightarrow>
            (\<exists>ps st. map_of P key = Some ps \<and> map_of S key = Some st
                      \<and> st_nlink st = int (length ps))" for key
    unfolding keys res by (auto split: option.splits)
  have sorted: "map_of P key = Some ps \<and> key \<in> fst ` set D \<longrightarrow> map_of D key = Some (sort ps)"
    for key ps
    unfolding keys res by (auto split: option.splits if_splits)
  have safe: "key \<notin> fst ` set D
              \<and> p \<notin> set (unlink_calls (snd (delete_variant_a w d yes dry_run xdev answer s)))"
    if wf: "wf_node (w d)" and k: "map_of P key = Some ps" "map_of S key = Some st"
      "int (length ps) < st_nlink st" "p \<in> set ps" "p \<notin> set (unlink_calls s)"
    for key ps st p
  proof -
    have notsel: "key \<notin> fst ` set D" using iff [of key] k by auto
    have dist: "distinct (concat (map snd P))"
      using scan_variant_a_distinct_paths [OF assms wf] .
    have "p \<notin> set (concat (map snd D))"
    proof
      assume "p \<in> set (concat (map snd D))"
      then obtain k' qs where kq: "(k', qs) \<in> set D" "p \<in> set qs" by auto
      have "distinct (map fst D)" using select_deletable_distinct [OF fe] by simp
      then have m: "map_of D k' = Some qs" using kq(1) by simp
      then obtain ps' where ps': "map_of P k' = Some ps'" "qs = sort ps'"
        using res [of k'] by (auto split: option.splits if_splits)
      have "k' \<in> fst ` set D" using kq(1) by force
      then have "k' \<noteq> key" using notsel by auto
      from disjoint_groups [OF dist dP k(1) ps'(1) this [symmetric]]
      have "set ps \<inter> set ps' = {}" .
      then show False using k(4) kq(2) ps'(2) by auto
    qed
    then have "p \<notin> set (unlink_calls (snd (delete_variant_a w d yes dry_run xdev answer s)))"
      using delete_variant_a_unlinks [OF fd, of yes dry_run answer s] k(5) by auto
    with notsel show ?thesis by simp
  qed
  have c4: "wf_node (w d) \<longrightarrow>
          (\<forall>key ps st p. map_of P key = Some ps \<and> map_of S key = Some st
               \<and> int (length ps) < st_nlink st \<and> p \<in> set ps \<and> p \<notin> set (unlink_calls s)
             \<longrightarrow> key \<notin> fst ` set D
                 \<and> p \<notin> set (unlink_calls
                               (snd (delete_variant_a w d yes dry_run xdev answer s))))"
  proof (intro impI allI)
    fix key ps st p
    assume wf: "wf_node (w d)"
      and a: "map_of P key = Some ps \<and> map_of S key = Some st
               \<and> int (length ps) < st_nlink st \<and> p \<in> set ps \<and> p \<notin> set (unlink_calls s)"
    show "key \<notin> fst ` set D
          \<and> p \<notin> set (unlink_calls (snd (delete_variant_a w d yes dry_run xdev answer s)))"
      using safe [OF wf, of key ps st p] a by blast
  qed
  have c2: "\<forall>key. key \<in> fst ` set D \<longleftrightarrow>
            (\<exists>ps st. map_of P key = Some ps \<and> map_of S key = Some st
                      \<and> st_nlink st = int (length ps))"
    by (intro allI) (rule iff)
  have c3: "\<forall>key ps. map_of P key = Some ps \<and> key \<in> fst ` set D
              \<longrightarrow> map_of D key = Some (sort ps)"
    by (intro allI) (rule sorted)
  show ?thesis
    by (intro exI [of _ D] conjI) (rule fd c2 c3 c4)+
qed

end
